theory Spec2Isabelle
  imports Complex_Main "HOL-Library.Word"
begin

section \<open>Text rendering of numbers\<close>

text \<open>
  Python's \<open>str\<close> of an integer, as used by the f-strings of \<open>recorder.py\<close> and
  \<open>frame_provider.py\<close>: decimal digits, most significant first, a leading minus sign
  for a negative number.
\<close>

definition digit_chr :: "nat \<Rightarrow> char" where
  "digit_chr d = char_of (d + 48)"

function str_nat :: "nat \<Rightarrow> string" where
  "str_nat n = (if 10 \<le> n then str_nat (n div 10) @ [digit_chr (n mod 10)] else [digit_chr n])"
  by pat_completeness auto
termination
  by (relation "measure (\<lambda>n. n)") auto

declare str_nat.simps [simp del]

definition str_int :: "int \<Rightarrow> string" where
  "str_int i = (if i < 0 then CHR ''-'' # str_nat (nat (- i)) else str_nat (nat i))"

text \<open>
  The format \<open>{x:.6f}\<close> of a float: the value rounded to the nearest multiple of
  \<open>10\<^sup>-\<^sup>6\<close> (ties to even, on the exact value of the float), printed with all its
  integer digits, a point and six fractional digits. A finite float is a rational number,
  so a clock reading is a \<open>rat\<close>.
\<close>

definition round_half_even :: "rat \<Rightarrow> int" where
  "round_half_even q =
     (let f = \<lfloor>q\<rfloor>; d = q - of_int f
      in if d < 1 / 2 then f
         else if 1 / 2 < d then f + 1
         else if even f then f else f + 1)"

definition micros :: "rat \<Rightarrow> nat" where
  "micros x = nat (round_half_even (\<bar>x\<bar> * 1000000))"

definition pad6 :: "string \<Rightarrow> string" where
  "pad6 s = replicate (6 - length s) CHR ''0'' @ s"

definition fmt_6f :: "rat \<Rightarrow> string" where
  "fmt_6f x =
     (if x < 0 then ''-'' else '''')
     @ str_nat (micros x div 1000000) @ ''.'' @ pad6 (str_nat (micros x mod 1000000))"

section \<open>The recorder (\<open>recorder.py\<close>)\<close>

subsection \<open>Data\<close>

text \<open>
  A \<open>pathlib.Path\<close> is the list of its components; \<open>p / name\<close> appends one component.
\<close>

type_synonym path = "string list"

type_synonym size = "int \<times> int"

text \<open>An image: \<open>shape[0]\<close> rows, \<open>shape[1]\<close> columns, and the rows of elements.\<close>

record 'a array =
  rows :: nat
  cols :: nat
  pix :: "'a list list"

type_synonym pixel = "8 word \<times> 8 word \<times> 8 word"

type_synonym image = "pixel array"

record RecordConfig =
  out_dir :: path
  fps :: int

text \<open>A \<open>cv2.VideoWriter\<close> handle, identified by the arguments of its constructor.\<close>

record video_writer =
  vw_path :: path
  vw_fourcc :: int
  vw_fps :: int
  vw_size :: size

datatype error =
    RuntimeError string
  | ValueError string
  | TypeError
  | OSError path
  | Cv2Error string

text \<open>
  The calls the recorder makes on its collaborators (the file system, the encoder), in
  the order it makes them.
\<close>

datatype event =
    Mkdir path
  | VideoWriterNew path int int size bool
  | VideoWriterWrite video_writer image
  | VideoWriterRelease video_writer
  | FileOpenW path
  | FileOpenFailed path
  | FileWrite path string
  | FileClose path

text \<open>
  The content of a text file. \<open>Text c\<close>: the file holds \<open>c\<close> once the handle open on it
  is closed; the buffer of a handle is not modelled beyond this. \<open>Clobbered\<close>: a handle on
  the file was dropped unclosed after another \<open>open\<close> had truncated the file; what the
  pending output of the dropped handle leaves in the file depends on the buffers of
  CPython and is not determined here.
\<close>

datatype content = Text string | Clobbered

text \<open>
  The world outside the recorder: the directories that exist, the contents of the text
  files, and the trace of collaborator calls. \<open>open(p, "w")\<close> raises
  \<open>IsADirectoryError\<close>, an \<open>OSError\<close>, when \<open>p\<close> is a directory. The other failures of the
  operating system (permissions, a full disk, a directory that cannot be created, a
  \<open>close\<close> that fails) are outside the model.
\<close>

record world =
  dirs :: "path set"
  texts :: "path \<rightharpoonup> content"
  trace :: "event list"

text \<open>
  The encoder of the host: whether \<open>cv2.VideoWriter(path, fourcc, fps, frame_size)\<close>
  reports \<open>isOpened()\<close>.
\<close>

type_synonym encoder = "path \<Rightarrow> int \<Rightarrow> int \<Rightarrow> size \<Rightarrow> bool"

record FrameRecorder =
  writer :: "video_writer option"
  ts_file :: "path option"
  start_time :: "rat option"
  frame_size :: "size option"

definition FrameRecorder_init :: FrameRecorder where
  "FrameRecorder_init = \<lparr>writer = None, ts_file = None, start_time = None, frame_size = None\<rparr>"

definition is_recording :: "FrameRecorder \<Rightarrow> bool" where
  "is_recording r = (writer r \<noteq> None)"

subsection \<open>Collaborators\<close>

text \<open>\<open>Path.mkdir(parents=True, exist_ok=True)\<close>: the directory and all its ancestors exist afterwards.\<close>

definition mkdir_parents :: "path \<Rightarrow> path set \<Rightarrow> path set" where
  "mkdir_parents d ds = ds \<union> set (map (\<lambda>n. take n d) [0..<Suc (length d)])"

text \<open>
  \<open>cv2.VideoWriter_fourcc(*fcc)\<close>: four characters packed into one integer, the first in
  the lowest byte; unpacking a string of another length is a \<open>TypeError\<close>.
\<close>

fun VideoWriter_fourcc :: "string \<Rightarrow> int option" where
  "VideoWriter_fourcc [c1, c2, c3, c4] =
     Some (of_char c1 + 256 * of_char c2 + 65536 * of_char c3 + 16777216 * of_char c4)"
| "VideoWriter_fourcc _ = None"

text \<open>Writing through a text-file handle appends to the file.\<close>

definition file_write :: "path \<Rightarrow> string \<Rightarrow> (path \<rightharpoonup> content) \<Rightarrow> (path \<rightharpoonup> content)" where
  "file_write p s fs =
     (case fs p of
        None \<Rightarrow> fs(p \<mapsto> Text s)
      | Some (Text c) \<Rightarrow> fs(p \<mapsto> Text (c @ s))
      | Some Clobbered \<Rightarrow> fs)"

definition log_event :: "event list \<Rightarrow> world \<Rightarrow> world" where
  "log_event es w = w\<lparr>trace := trace w @ es\<rparr>"

subsection \<open>\<open>FrameRecorder.start\<close>\<close>

definition fourcc_candidates :: "string list" where
  "fourcc_candidates = [''avc1'', ''H264'', ''mp4v'']"

definition ts_header :: string where
  "ts_header = ''frame_idx,unix_time'' @ [CHR 0x0A]"

text \<open>
  The loop over the candidates (lines 41-47): each candidate is tried in turn, the
  first writer that reports \<open>isOpened()\<close> is kept and the loop is left.
\<close>

fun try_candidates ::
  "encoder \<Rightarrow> path \<Rightarrow> int \<Rightarrow> size \<Rightarrow> string list \<Rightarrow> world \<Rightarrow> (error + video_writer option) \<times> world"
where
  "try_candidates enc p f sz [] w = (Inr None, w)"
| "try_candidates enc p f sz (fcc # rest) w =
     (case VideoWriter_fourcc fcc of
        None \<Rightarrow> (Inl TypeError, w)
      | Some fourcc \<Rightarrow>
          (let opened = enc p fourcc f sz;
               w' = log_event [VideoWriterNew p fourcc f sz opened] w
           in if opened
              then (Inr (Some \<lparr>vw_path = p, vw_fourcc = fourcc, vw_fps = f, vw_size = sz\<rparr>), w')
              else try_candidates enc p f sz rest w'))"

text \<open>
  \<open>start\<close> returns the exception it raised, if any, together with the recorder and the
  world as it left them: what it did before raising stays done. \<open>now\<close> is the reading
  of \<open>time.time()\<close> on line 55. Line 52 stores the writer before line 53 opens the log:
  when \<open>open\<close> raises, the writer is stored and the log handle is what it was. Line 53
  opens the log in mode \<open>"w"\<close>, which truncates the file, and replaces the log handle; a
  handle that was there is dropped unclosed, and if it was open on the same file that
  file is \<open>Clobbered\<close>.
\<close>

definition start ::
  "encoder \<Rightarrow> RecordConfig \<Rightarrow> size \<Rightarrow> rat \<Rightarrow> FrameRecorder \<times> world \<Rightarrow> error option \<times> FrameRecorder \<times> world"
where
  "start enc cfg fsz now rw =
     (let (r, w) = rw;
          w1 = log_event [Mkdir (out_dir cfg)] (w\<lparr>dirs := mkdir_parents (out_dir cfg) (dirs w)\<rparr>);
          r1 = r\<lparr>frame_size := Some fsz\<rparr>;
          out_path = out_dir cfg @ [''recording.mp4''];
          (res, w2) = try_candidates enc out_path (fps cfg) fsz fourcc_candidates w1
      in case res of
           Inl e \<Rightarrow> (Some e, r1, w2)
         | Inr None \<Rightarrow>
             (Some (RuntimeError ''Failed to open VideoWriter (no supported codec).''), r1, w2)
         | Inr (Some wr) \<Rightarrow>
             (let ts = out_dir cfg @ [''timestamps.csv''];
                  r2 = r1\<lparr>writer := Some wr\<rparr>
              in if ts \<in> dirs w2
                 then (Some (OSError ts), r2, log_event [FileOpenFailed ts] w2)
                 else (let w3 = log_event [FileOpenW ts, FileWrite ts ts_header]
                                  (w2\<lparr>texts := (texts w2)
                                        (ts \<mapsto> (if ts_file r = Some ts then Clobbered
                                                 else Text ts_header))\<rparr>)
                       in (None, r2\<lparr>ts_file := Some ts, start_time := Some now\<rparr>, w3))))"

subsection \<open>\<open>FrameRecorder.write\<close>\<close>

text \<open>The method is named \<open>write_frame\<close> here: \<open>write\<close> is a keyword of Isabelle.\<close>

definition ts_row :: "int \<Rightarrow> rat \<Rightarrow> string" where
  "ts_row frame_idx now = str_int frame_idx @ '','' @ fmt_6f now @ [CHR 0x0A]"

definition write_frame :: "image \<Rightarrow> int \<Rightarrow> rat \<Rightarrow> FrameRecorder \<times> world \<Rightarrow> FrameRecorder \<times> world" where
  "write_frame frame_bgr frame_idx now rw =
     (let (r, w) = rw
      in case (writer r, ts_file r) of
           (Some wr, Some ts) \<Rightarrow>
             (r, log_event [VideoWriterWrite wr frame_bgr, FileWrite ts (ts_row frame_idx now)]
                   (w\<lparr>texts := file_write ts (ts_row frame_idx now) (texts w)\<rparr>))
         | _ \<Rightarrow> (r, w))"

subsection \<open>\<open>FrameRecorder.stop\<close>\<close>

definition stop :: "FrameRecorder \<times> world \<Rightarrow> FrameRecorder \<times> world" where
  "stop rw =
     (let (r, w) = rw;
          w1 = (case writer r of Some wr \<Rightarrow> log_event [VideoWriterRelease wr] w | None \<Rightarrow> w);
          r1 = r\<lparr>writer := None\<rparr>;
          w2 = (case ts_file r1 of Some ts \<Rightarrow> log_event [FileClose ts] w1 | None \<Rightarrow> w1)
      in (r1\<lparr>ts_file := None, start_time := None, frame_size := None\<rparr>, w2))"

subsection \<open>Vocabulary for the properties of \<open>start\<close>\<close>

text \<open>
  Whether the host opens a writer for a candidate, the event of one attempt, the writer
  handle a candidate gives, and whether the log can be opened: no directory is in its
  place.
\<close>

definition log_openable :: "RecordConfig \<Rightarrow> world \<Rightarrow> bool" where
  "log_openable cfg w = (out_dir cfg @ [''timestamps.csv''] \<notin> dirs w)"

definition opens :: "encoder \<Rightarrow> RecordConfig \<Rightarrow> size \<Rightarrow> string \<Rightarrow> bool" where
  "opens enc cfg fsz fcc =
     (case VideoWriter_fourcc fcc of
        None \<Rightarrow> False
      | Some fourcc \<Rightarrow> enc (out_dir cfg @ [''recording.mp4'']) fourcc (fps cfg) fsz)"

definition attempt :: "RecordConfig \<Rightarrow> size \<Rightarrow> bool \<Rightarrow> string \<Rightarrow> event" where
  "attempt cfg fsz ok fcc =
     VideoWriterNew (out_dir cfg @ [''recording.mp4'']) (the (VideoWriter_fourcc fcc)) (fps cfg) fsz ok"

definition writer_for :: "RecordConfig \<Rightarrow> size \<Rightarrow> string \<Rightarrow> video_writer" where
  "writer_for cfg fsz fcc =
     \<lparr>vw_path = out_dir cfg @ [''recording.mp4''], vw_fourcc = the (VideoWriter_fourcc fcc),
      vw_fps = fps cfg, vw_size = fsz\<rparr>"

subsection \<open>Reading the timestamp log\<close>

text \<open>
  The lines of a text: each newline ends a line; text after the last newline is a last
  line. \<open>value_6f x\<close> is the number that the text \<open>fmt_6f x\<close> denotes: the sign of \<open>x\<close>
  and its rounded count of microseconds.
\<close>

fun lines_of :: "string \<Rightarrow> string list" where
  "lines_of [] = []"
| "lines_of (c # cs) =
     (if c = CHR 0x0A then [] # lines_of cs
      else (case lines_of cs of [] \<Rightarrow> [[c]] | l # ls \<Rightarrow> (c # l) # ls))"

definition value_6f :: "rat \<Rightarrow> rat" where
  "value_6f x = (if x < 0 then - 1 else 1) * of_nat (micros x) / 1000000"

text \<open>
  Reading a row back, as \<open>float(line.split(",")[1])\<close> does on the rows of the log: the
  text after the first comma, a decimal number with an optional sign, digits, a point
  and digits.
\<close>

definition digit_val :: "char \<Rightarrow> nat" where
  "digit_val c = of_char c - 48"

definition digits_val :: "string \<Rightarrow> nat" where
  "digits_val ds = foldl (\<lambda>acc c. 10 * acc + digit_val c) 0 ds"

definition parse_unsigned :: "string \<Rightarrow> rat" where
  "parse_unsigned s =
     (let ip = takeWhile (\<lambda>c. c \<noteq> CHR ''.'') s;
          fp = drop 1 (dropWhile (\<lambda>c. c \<noteq> CHR ''.'') s)
      in of_nat (digits_val ip) + of_nat (digits_val fp) / 10 ^ length fp)"

definition parse_decimal :: "string \<Rightarrow> rat" where
  "parse_decimal s =
     (if s \<noteq> [] \<and> hd s = CHR ''-'' then - parse_unsigned (tl s) else parse_unsigned s)"

definition unix_time_of_row :: "string \<Rightarrow> rat" where
  "unix_time_of_row line = parse_decimal (drop 1 (dropWhile (\<lambda>c. c \<noteq> CHR '','') line))"

subsection \<open>Sequences of calls\<close>

text \<open>
  A caller makes calls one after the other. An exception raised by \<open>start\<close> goes to
  the caller; the recorder and the world stay as \<open>start\<close> left them. Each \<open>Start\<close>
  carries the behaviour of the host's encoder at that moment.
\<close>

datatype call =
    Start encoder RecordConfig size rat
  | Write image int rat
  | Stop

fun step :: "call \<Rightarrow> FrameRecorder \<times> world \<Rightarrow> FrameRecorder \<times> world" where
  "step (Start enc cfg fsz now) rw = snd (start enc cfg fsz now rw)"
| "step (Write frame_bgr frame_idx now) rw = write_frame frame_bgr frame_idx now rw"
| "step Stop rw = stop rw"

definition run :: "call list \<Rightarrow> FrameRecorder \<times> world \<Rightarrow> FrameRecorder \<times> world" where
  "run calls rw = foldl (\<lambda>s c. step c s) rw calls"

text \<open>One recording session: a \<open>start\<close>, one \<open>write\<close> per tick, a \<open>stop\<close>.\<close>

definition session ::
  "encoder \<Rightarrow> RecordConfig \<Rightarrow> size \<Rightarrow> rat \<Rightarrow> (image \<times> int \<times> rat) list \<Rightarrow> call list"
where
  "session enc cfg fsz t0 ticks =
     Start enc cfg fsz t0 # map (\<lambda>(frame_bgr, frame_idx, now). Write frame_bgr frame_idx now) ticks @ [Stop]"

definition handles_paired :: "FrameRecorder \<Rightarrow> bool" where
  "handles_paired r = ((writer r = None) = (ts_file r = None))"

subsection \<open>Concrete hosts and inputs\<close>

text \<open>A host whose encoder supports only \<open>mp4v\<close>, a host with no codec, a configuration and an empty world.\<close>

definition host_only_mp4v :: encoder where
  "host_only_mp4v p fourcc f sz = (fourcc = 0x7634706D)"

definition host_no_codec :: encoder where
  "host_no_codec p fourcc f sz = False"

definition cfg_demo :: RecordConfig where
  "cfg_demo = \<lparr>out_dir = [''tmp'', ''rec''], fps = 30\<rparr>"

definition world_empty :: world where
  "world_empty = \<lparr>dirs = {}, texts = Map.empty, trace = []\<rparr>"

definition writer_demo :: video_writer where
  "writer_demo = writer_for cfg_demo (640, 480) ''mp4v''"

definition recorder_armed :: FrameRecorder where
  "recorder_armed =
     \<lparr>writer = Some writer_demo, ts_file = Some [''tmp'', ''rec'', ''timestamps.csv''],
      start_time = Some 5, frame_size = Some (640, 480)\<rparr>"

text \<open>A world in which the output directory already holds a log of an earlier session.\<close>

definition world_stale :: world where
  "world_stale =
     \<lparr>dirs = {[], [''tmp''], [''tmp'', ''rec'']},
      texts = [[''tmp'', ''rec'', ''timestamps.csv''] \<mapsto> Text (''stale'' @ [CHR 0x0A])],
      trace = []\<rparr>"

text \<open>A world in which \<open>timestamps.csv\<close> in the output directory is a directory.\<close>

definition world_log_is_dir :: world where
  "world_log_is_dir =
     \<lparr>dirs = {[], [''tmp''], [''tmp'', ''rec''], [''tmp'', ''rec'', ''timestamps.csv'']},
      texts = Map.empty, trace = []\<rparr>"

definition frame_empty :: image where
  "frame_empty = \<lparr>rows = 0, cols = 0, pix = []\<rparr>"

section \<open>The frame provider (\<open>frame_provider.py\<close>, \<open>settings.py\<close>)\<close>

subsection \<open>Settings and collaborators\<close>

record UiSettings =
  target_fps :: int
  show_disparity :: bool
  show_right :: bool
  record_fps :: int
  width :: int
  height :: int

text \<open>
  \<open>cv2.circle\<close> and \<open>cv2.putText\<close> draw into an array in place: the shape stays, each
  element gets a value that depends on the array before the call and on the position.
  Which elements they change, the grey conversion, the colour table and the
  floating-point computation of the circle's centre (lines 53-54) belong to OpenCV and
  NumPy and are parameters of the model.
\<close>

type_synonym painter = "image \<Rightarrow> nat \<Rightarrow> nat \<Rightarrow> pixel"

definition draw :: "painter \<Rightarrow> image \<Rightarrow> image" where
  "draw p img = img\<lparr>pix := map (\<lambda>y. map (\<lambda>x. p img y x) [0..<cols img]) [0..<rows img]\<rparr>"

text \<open>
  \<open>circle centre radius colour thickness\<close>; \<open>putText text origin colour thickness\<close>,
  with the font \<open>FONT_HERSHEY_SIMPLEX\<close> and the scale 0.7 of both calls; \<open>centre t w h\<close>
  is the pair \<open>(cx, cy)\<close> of lines 53-54.
\<close>

record libs =
  circle :: "int \<times> int \<Rightarrow> int \<Rightarrow> pixel \<Rightarrow> int \<Rightarrow> painter"
  putText :: "string \<Rightarrow> int \<times> int \<Rightarrow> pixel \<Rightarrow> int \<Rightarrow> painter"
  cvtColor_BGR2GRAY :: "pixel \<Rightarrow> 8 word"
  applyColorMap_TURBO :: "8 word \<Rightarrow> pixel"
  centre :: "rat \<Rightarrow> int \<Rightarrow> int \<Rightarrow> int \<times> int"

subsection \<open>NumPy and OpenCV operations with a fixed meaning\<close>

text \<open>\<open>np.zeros((h, w, 3))\<close> raises \<open>ValueError\<close> for a negative dimension.\<close>

definition np_zeros :: "int \<Rightarrow> int \<Rightarrow> error + image" where
  "np_zeros h w =
     (if h < 0 \<or> w < 0 then Inl (ValueError ''negative dimensions are not allowed'')
      else Inr \<lparr>rows = nat h, cols = nat w, pix = replicate (nat h) (replicate (nat w) (0, 0, 0))\<rparr>)"

text \<open>
  \<open>np.roll(a, shift, axis=1)\<close>: in every row the last \<open>shift mod n\<close> elements move to the
  front.
\<close>

definition roll_row :: "nat \<Rightarrow> 'a list \<Rightarrow> 'a list" where
  "roll_row shift xs =
     (if xs = [] then []
      else (let n = length xs; k = shift mod n in drop (n - k) xs @ take (n - k) xs))"

definition np_roll :: "nat \<Rightarrow> 'a array \<Rightarrow> 'a array" where
  "np_roll shift a = a\<lparr>pix := map (roll_row shift) (pix a)\<rparr>"

text \<open>
  An operation on every element (\<open>cv2.cvtColor\<close>, \<open>cv2.applyColorMap\<close>), and
  \<open>cv2.absdiff\<close> of two images of the same shape: the absolute difference of each
  channel, which fits a byte.
\<close>

definition map_array :: "('a \<Rightarrow> 'b) \<Rightarrow> 'a array \<Rightarrow> 'b array" where
  "map_array f a = \<lparr>rows = rows a, cols = cols a, pix = map (map f) (pix a)\<rparr>"

definition absdiff_u8 :: "8 word \<Rightarrow> 8 word \<Rightarrow> 8 word" where
  "absdiff_u8 a b = (if a \<le> b then b - a else a - b)"

definition cv2_absdiff :: "image \<Rightarrow> image \<Rightarrow> image" where
  "cv2_absdiff a b =
     a\<lparr>pix := map2 (map2 (\<lambda>(b1, g1, r1) (b2, g2, r2).
                   (absdiff_u8 b1 b2, absdiff_u8 g1 g2, absdiff_u8 r1 r2))) (pix a) (pix b)\<rparr>"

text \<open>\<open>np.hstack\<close>: row by row concatenation; the arrays must have the same number of rows.\<close>

fun np_hstack :: "'a array list \<Rightarrow> error + 'a array" where
  "np_hstack [] = Inl (ValueError ''need at least one array to concatenate'')"
| "np_hstack (a # as) =
     (if list_all (\<lambda>b. rows b = rows a) as
      then Inr \<lparr>rows = rows a, cols = sum_list (map cols (a # as)),
                pix = map (\<lambda>y. concat (map (\<lambda>b. pix b ! y) (a # as))) [0..<rows a]\<rparr>
      else Inl (ValueError ''all the input array dimensions except for the concatenation axis must match exactly''))"

subsection \<open>\<open>FrameProvider\<close>\<close>

definition caption :: string where
  "caption = ''UI Preview (replace FrameProvider with pipeline output)''"

text \<open>\<open>_make_overlay\<close> (lines 77-82); the shape of an array holds natural numbers.\<close>

definition make_overlay :: "libs \<Rightarrow> image \<Rightarrow> image" where
  "make_overlay cv frame_bgr =
     draw (putText cv (str_nat (cols frame_bgr) @ ''x'' @ str_nat (rows frame_bgr))
             (20, int (rows frame_bgr) - 20) (255, 255, 255) 2) frame_bgr"

text \<open>
  The synthetic path of \<open>get_frame\<close>, in three parts: the base panel (lines 48-59), the
  difference panel (lines 70-71), and the composition of the panels (lines 62-74).
  \<open>t\<close> is the elapsed time of line 49. \<open>cv2.circle\<close> (line 55) raises \<open>cv2.error\<close> on
  an array with a zero dimension.
\<close>

definition base_panel :: "libs \<Rightarrow> UiSettings \<Rightarrow> rat \<Rightarrow> error + image" where
  "base_panel cv s t =
     (case np_zeros (height s) (width s) of
        Inl e \<Rightarrow> Inl e
      | Inr base \<Rightarrow>
          if rows base = 0 \<or> cols base = 0
          then Inl (Cv2Error ''circle: the image is empty'')
          else Inr (draw (putText cv caption (20, 40) (255, 255, 255) 2)
                      (draw (circle cv (centre cv t (width s) (height s)) 35 (0, 255, 255) (- 1))
                         base)))"

definition disparity_panel :: "libs \<Rightarrow> image \<Rightarrow> image \<Rightarrow> image" where
  "disparity_panel cv base right =
     map_array (applyColorMap_TURBO cv) (map_array (cvtColor_BGR2GRAY cv) (cv2_absdiff base right))"

definition composed :: "libs \<Rightarrow> UiSettings \<Rightarrow> rat \<Rightarrow> error + image" where
  "composed cv s t =
     (case base_panel cv s t of
        Inl e \<Rightarrow> Inl e
      | Inr base \<Rightarrow>
          (let right = np_roll 18 base;
               parts = [base] @ (if show_right s then [right] else [])
                       @ (if show_disparity s then [disparity_panel cv base right] else [])
           in np_hstack parts))"

text \<open>
  The fields \<open>s\<close>, \<open>use_webcam\<close>, \<open>_t0\<close> and \<open>_cap\<close> of the object. A capture handle has
  no content of its own here: what \<open>self._cap.read()\<close> returns is an input of each call.
\<close>

record FrameProvider =
  provider_s :: UiSettings
  provider_use_webcam :: bool
  provider_t0 :: rat
  provider_cap :: "unit option"

definition FrameProvider_init :: "UiSettings \<Rightarrow> bool \<Rightarrow> rat \<Rightarrow> FrameProvider" where
  "FrameProvider_init settings webcam now =
     \<lparr>provider_s = settings, provider_use_webcam = webcam, provider_t0 = now,
      provider_cap = (if webcam then Some () else None)\<rparr>"

text \<open>
  \<open>get_frame\<close> (lines 41-75). \<open>read\<close> is the pair that \<open>self._cap.read()\<close> returns if
  there is a capture handle, \<open>now\<close> the reading of \<open>time.time()\<close>.
\<close>

definition get_frame :: "libs \<Rightarrow> FrameProvider \<Rightarrow> bool \<times> image option \<Rightarrow> rat \<Rightarrow> error + image" where
  "get_frame cv self read now =
     (case (provider_cap self, read) of
        (Some _, True, Some frame) \<Rightarrow> Inr (make_overlay cv frame)
      | _ \<Rightarrow>
          (case composed cv (provider_s self) (now - provider_t0 self) of
             Inl e \<Rightarrow> Inl e
           | Inr frame \<Rightarrow> Inr (make_overlay cv frame)))"

subsection \<open>Vocabulary for the properties of the frames\<close>

text \<open>An array is well formed when its rows are as many and as long as its shape says.\<close>

definition wf_array :: "'a array \<Rightarrow> bool" where
  "wf_array a = (length (pix a) = rows a \<and> list_all (\<lambda>row. length row = cols a) (pix a))"

text \<open>
  The frame of the live path, if \<open>get_frame\<close> takes it: there is a capture handle, the
  read reports success and gives a frame.
\<close>

definition live_frame :: "FrameProvider \<Rightarrow> bool \<times> image option \<Rightarrow> image option" where
  "live_frame self read =
     (case (provider_cap self, read) of (Some _, True, Some frame) \<Rightarrow> Some frame | _ \<Rightarrow> None)"

definition panel_count :: "UiSettings \<Rightarrow> nat" where
  "panel_count s = 1 + (if show_right s then 1 else 0) + (if show_disparity s then 1 else 0)"

subsection \<open>Concrete settings and collaborators\<close>

text \<open>
  The defaults of \<open>settings.py\<close>, the settings of the stability scenario, and simple
  collaborators to evaluate the model with.
\<close>

definition UiSettings_default :: UiSettings where
  "UiSettings_default =
     \<lparr>target_fps = 30, show_disparity = True, show_right = True, record_fps = 30,
      width = 848, height = 480\<rparr>"

definition settings_100x50 :: UiSettings where
  "settings_100x50 =
     \<lparr>target_fps = 30, show_disparity = False, show_right = False, record_fps = 30,
      width = 100, height = 50\<rparr>"

definition libs_test :: libs where
  "libs_test =
     \<lparr>circle = (\<lambda>c r colour thickness img y x.
                  if (int x - fst c)\<^sup>2 + (int y - snd c)\<^sup>2 \<le> r\<^sup>2 then colour else pix img ! y ! x),
      putText = (\<lambda>txt org colour thickness img y x. pix img ! y ! x),
      cvtColor_BGR2GRAY = (\<lambda>(b, g, r). g),
      applyColorMap_TURBO = (\<lambda>v. (v, v, v)),
      centre = (\<lambda>t w h. (w div 2, h div 2))\<rparr>"


section \<open>Properties of the recorder\<close>

subsection \<open>What \<open>start\<close> computes\<close>

lemma log_event_twice: "log_event es (log_event es' w) = log_event (es' @ es) w"
  by (simp add: log_event_def)

lemma log_event_fields:
  "dirs (log_event es w) = dirs w" "texts (log_event es w) = texts w"
  "trace (log_event es w) = trace w @ es"
  by (simp_all add: log_event_def)

lemma try_candidates_find:
  assumes "\<forall>c \<in> set cs. VideoWriter_fourcc c \<noteq> None"
  shows "try_candidates enc (out_dir cfg @ [''recording.mp4'']) (fps cfg) fsz cs w =
    (case find (opens enc cfg fsz) cs of
       None \<Rightarrow> (Inr None, log_event (map (attempt cfg fsz False) cs) w)
     | Some c \<Rightarrow>
         (Inr (Some (writer_for cfg fsz c)),
          log_event (map (attempt cfg fsz False) (takeWhile (\<lambda>d. \<not> opens enc cfg fsz d) cs)
                     @ [attempt cfg fsz True c]) w))"
  using assms
proof (induction cs arbitrary: w)
  case Nil
  show ?case by (simp add: log_event_def)
next
  case (Cons c cs)
  from Cons.prems obtain k where k: "VideoWriter_fourcc c = Some k" by auto
  from Cons.prems have rest: "\<forall>c \<in> set cs. VideoWriter_fourcc c \<noteq> None" by simp
  from k have o: "opens enc cfg fsz c = enc (out_dir cfg @ [''recording.mp4'']) k (fps cfg) fsz"
    by (simp add: opens_def)
  from k have a: "\<And>b. VideoWriterNew (out_dir cfg @ [''recording.mp4'']) k (fps cfg) fsz b = attempt cfg fsz b c"
    by (simp add: attempt_def)
  from k have v: "\<lparr>vw_path = out_dir cfg @ [''recording.mp4''], vw_fourcc = k, vw_fps = fps cfg, vw_size = fsz\<rparr>
      = writer_for cfg fsz c"
    by (simp add: writer_for_def)
  show ?case
  proof (cases "opens enc cfg fsz c")
    case True
    with k o show ?thesis
      by (simp add: a v)
  next
    case False
    with k o Cons.IH [OF rest] show ?thesis
      by (simp add: a log_event_twice split: option.split)
  qed
qed

lemma candidates_fourcc: "\<forall>c \<in> set fourcc_candidates. VideoWriter_fourcc c \<noteq> None"
  by (simp add: fourcc_candidates_def)

lemma start_no_codec:
  assumes "find (opens enc cfg fsz) fourcc_candidates = None"
  shows "start enc cfg fsz now (r, w) =
    (Some (RuntimeError ''Failed to open VideoWriter (no supported codec).''),
     r\<lparr>frame_size := Some fsz\<rparr>,
     log_event (Mkdir (out_dir cfg) # map (attempt cfg fsz False) fourcc_candidates)
       (w\<lparr>dirs := mkdir_parents (out_dir cfg) (dirs w)\<rparr>))"
  using assms
  by (simp add: start_def try_candidates_find [OF candidates_fourcc] log_event_twice)

lemma log_not_created:
  "out_dir cfg @ [n] \<in> mkdir_parents (out_dir cfg) ds \<longleftrightarrow> out_dir cfg @ [n] \<in> ds"
proof -
  have "out_dir cfg @ [n] \<noteq> take k (out_dir cfg)" for k
  proof
    assume "out_dir cfg @ [n] = take k (out_dir cfg)"
    then have "length (out_dir cfg @ [n]) = length (take k (out_dir cfg))" by (rule arg_cong)
    then show False by simp
  qed
  then show ?thesis by (auto simp: mkdir_parents_def)
qed

lemma start_opened:
  assumes "find (opens enc cfg fsz) fourcc_candidates = Some c" and "log_openable cfg w"
  shows "start enc cfg fsz now (r, w) =
    (None,
     r\<lparr>frame_size := Some fsz, writer := Some (writer_for cfg fsz c),
       ts_file := Some (out_dir cfg @ [''timestamps.csv'']), start_time := Some now\<rparr>,
     log_event (Mkdir (out_dir cfg)
                # map (attempt cfg fsz False) (takeWhile (\<lambda>d. \<not> opens enc cfg fsz d) fourcc_candidates)
                @ [attempt cfg fsz True c, FileOpenW (out_dir cfg @ [''timestamps.csv'']),
                   FileWrite (out_dir cfg @ [''timestamps.csv'']) ts_header])
       (w\<lparr>dirs := mkdir_parents (out_dir cfg) (dirs w),
          texts := (texts w)(out_dir cfg @ [''timestamps.csv'']
                      \<mapsto> (if ts_file r = Some (out_dir cfg @ [''timestamps.csv''])
                           then Clobbered else Text ts_header))\<rparr>))"
  using assms
  by (simp add: start_def try_candidates_find [OF candidates_fourcc] log_event_def Let_def
        log_openable_def log_not_created)

lemma start_open_fails:
  assumes "find (opens enc cfg fsz) fourcc_candidates = Some c" and "\<not> log_openable cfg w"
  shows "start enc cfg fsz now (r, w) =
    (Some (OSError (out_dir cfg @ [''timestamps.csv''])),
     r\<lparr>frame_size := Some fsz, writer := Some (writer_for cfg fsz c)\<rparr>,
     log_event (Mkdir (out_dir cfg)
                # map (attempt cfg fsz False) (takeWhile (\<lambda>d. \<not> opens enc cfg fsz d) fourcc_candidates)
                @ [attempt cfg fsz True c, FileOpenFailed (out_dir cfg @ [''timestamps.csv''])])
       (w\<lparr>dirs := mkdir_parents (out_dir cfg) (dirs w)\<rparr>))"
  using assms
  by (simp add: start_def try_candidates_find [OF candidates_fourcc] log_event_def Let_def
        log_openable_def log_not_created)

lemma find_demo_mp4v: "find (opens host_only_mp4v cfg_demo (640, 480)) fourcc_candidates = Some ''mp4v''"
  by (simp add: fourcc_candidates_def opens_def host_only_mp4v_def)

lemma find_demo_none: "find (opens host_no_codec cfg fsz) fourcc_candidates = None"
  by (simp add: fourcc_candidates_def opens_def host_no_codec_def)

lemma openable_demo: "log_openable cfg_demo world_empty" "log_openable cfg_demo world_stale"
  by (simp_all add: log_openable_def cfg_demo_def world_empty_def world_stale_def)

lemma not_openable_demo: "\<not> log_openable cfg_demo world_log_is_dir"
  by (simp add: log_openable_def cfg_demo_def world_log_is_dir_def)

subsection \<open>Numbers as text, and the lines of the log\<close>

lemma digit_chr_values:
  "digit_chr 0 = CHR ''0''" "digit_chr 1 = CHR ''1''" "digit_chr 2 = CHR ''2''"
  "digit_chr 3 = CHR ''3''" "digit_chr 4 = CHR ''4''" "digit_chr 5 = CHR ''5''"
  "digit_chr 6 = CHR ''6''" "digit_chr 7 = CHR ''7''" "digit_chr 8 = CHR ''8''"
  "digit_chr 9 = CHR ''9''" "digit_chr (Suc 0) = CHR ''1''"
  by code_simp+

lemma str_nat_small: "n < 10 \<Longrightarrow> str_nat n = [digit_chr n]"
  by (subst str_nat.simps) simp

lemma str_nat_big: "10 \<le> n \<Longrightarrow> str_nat n = str_nat (n div 10) @ [digit_chr (n mod 10)]"
  by (subst str_nat.simps) simp

lemmas str_eval = str_nat_small str_nat_big digit_chr_values str_int_def

lemma micros_2: "micros 2 = 2000000"
  by (simp add: micros_def round_half_even_def)

lemma micros_1: "micros 1 = 1000000"
  by (simp add: micros_def round_half_even_def)

lemma six_zeros: "replicate 5 CHR ''0'' = ''00000''"
  by (simp add: numeral_eq_Suc)

lemma fmt_6f_2: "fmt_6f 2 = ''2.000000''"
  by (simp add: fmt_6f_def micros_2 pad6_def str_eval six_zeros)

lemma fmt_6f_1: "fmt_6f 1 = ''1.000000''"
  by (simp add: fmt_6f_def micros_1 pad6_def str_eval six_zeros)

lemma value_6f_2: "value_6f 2 = 2"
  by (simp add: value_6f_def micros_2)

lemma value_6f_1: "value_6f 1 = 1"
  by (simp add: value_6f_def micros_1)


lemma lines_of_line:
  "CHR 0x0A \<notin> set l \<Longrightarrow> lines_of (l @ CHR 0x0A # rest) = l # lines_of rest"
  by (induction l) auto

lemma of_char_digit: "d < 10 \<Longrightarrow> (of_char (digit_chr d) :: nat) = d + 48"
  by (simp add: digit_chr_def)

lemma digit_chr_not_nl: "d < 10 \<Longrightarrow> digit_chr d \<noteq> CHR 0x0A"
proof
  assume d: "d < 10" and e: "digit_chr d = CHR 0x0A"
  have a: "(of_char (digit_chr d) :: nat) = d + 48" using d by (rule of_char_digit)
  have b: "(of_char (digit_chr d) :: nat) = 10" by (simp only: e) simp
  from a b have "d + 48 = 10" by (simp only:)
  then show False by arith
qed

lemma str_nat_no_nl: "CHR 0x0A \<notin> set (str_nat n)"
proof (induction n rule: str_nat.induct)
  case (1 n)
  show ?case
  proof (cases "10 \<le> n")
    case True
    have "n mod 10 < 10" by simp
    then have "digit_chr (n mod 10) \<noteq> CHR 0x0A" by (rule digit_chr_not_nl)
    moreover from True "1.IH" have "CHR 0x0A \<notin> set (str_nat (n div 10))" by simp
    ultimately show ?thesis by (simp add: str_nat_big [OF True])
  next
    case False
    then have "n < 10" by simp
    then show ?thesis using digit_chr_not_nl [of n] by (simp add: str_nat_small)
  qed
qed

lemma ts_row_line:
  "lines_of (ts_row i t @ rest) = (str_int i @ '','' @ fmt_6f t) # lines_of rest"
proof -
  have "CHR 0x0A \<notin> set (str_int i @ '','' @ fmt_6f t)"
    by (simp add: str_int_def fmt_6f_def pad6_def str_nat_no_nl)
  from lines_of_line [OF this, of rest] show ?thesis
    by (simp add: ts_row_def)
qed

lemma lines_of_rows:
  "lines_of (concat (map (\<lambda>(frame_bgr, i, t). ts_row i t) ticks))
     = map (\<lambda>(frame_bgr, i, t). str_int i @ '','' @ fmt_6f t) ticks"
  by (induction ticks) (auto simp: ts_row_line)

lemma lines_of_log:
  "lines_of (ts_header @ concat (map (\<lambda>(frame_bgr, i, t). ts_row i t) ticks))
     = ''frame_idx,unix_time'' # map (\<lambda>(frame_bgr, i, t). str_int i @ '','' @ fmt_6f t) ticks"
proof -
  have "CHR 0x0A \<notin> set ''frame_idx,unix_time''" by simp
  from lines_of_line [OF this] show ?thesis
    by (simp add: ts_header_def lines_of_rows)
qed


lemma digit_val_digit: "d < 10 \<Longrightarrow> digit_val (digit_chr d) = d"
  by (simp add: digit_val_def of_char_digit)

lemma digits_val_snoc: "digits_val (ds @ [c]) = 10 * digits_val ds + digit_val c"
  by (simp add: digits_val_def)

lemma digits_val_str_nat: "digits_val (str_nat n) = n"
proof (induction n rule: str_nat.induct)
  case (1 n)
  show ?case
  proof (cases "10 \<le> n")
    case True
    with "1.IH" have "digits_val (str_nat (n div 10)) = n div 10" by simp
    then show ?thesis
      by (simp add: str_nat_big [OF True] digits_val_snoc digit_val_digit)
  next
    case False
    then have "n < 10" by simp
    then show ?thesis
      by (simp add: str_nat_small digits_val_def digit_val_digit)
  qed
qed

lemma digit_val_zero: "digit_val CHR ''0'' = 0"
  by (simp add: digit_val_def)

lemma foldl_zeros:
  "foldl (\<lambda>acc c. 10 * acc + digit_val c) 0 (replicate k CHR ''0'') = 0"
  by (induction k) (simp_all add: digit_val_zero)

lemma digits_val_pad: "digits_val (replicate k CHR ''0'' @ ds) = digits_val ds"
  by (simp add: digits_val_def foldl_zeros)

lemma str_nat_length: "0 < d \<Longrightarrow> n < 10 ^ d \<Longrightarrow> length (str_nat n) \<le> d"
proof (induction n arbitrary: d rule: str_nat.induct)
  case (1 n)
  show ?case
  proof (cases "10 \<le> n")
    case True
    with "1.prems" have "1 < d"
      by (cases "d = 1") auto
    then obtain d' where d: "d = Suc d'" and d': "0 < d'" by (cases d) auto
    from "1.prems"(2) d have "n div 10 < 10 ^ d'"
      by (simp add: less_mult_imp_div_less mult.commute)
    from "1.IH" [OF True d' this] show ?thesis
      by (simp add: str_nat_big [OF True] d)
  next
    case False
    then have "n < 10" by simp
    with "1.prems" show ?thesis by (simp add: str_nat_small)
  qed
qed

lemma pad6_length: "k < 1000000 \<Longrightarrow> length (pad6 (str_nat k)) = 6"
proof -
  assume "k < 1000000"
  then have "k < 10 ^ 6" by simp
  with str_nat_length [of 6 k] have "length (str_nat k) \<le> 6" by simp
  then show ?thesis by (simp add: pad6_def)
qed

lemma str_nat_chars:
  "c \<in> set (str_nat n) \<Longrightarrow> \<exists>d < 10. c = digit_chr d"
proof (induction n rule: str_nat.induct)
  case (1 n)
  show ?case
  proof (cases "10 \<le> n")
    case True
    with "1.prems" have "c \<in> set (str_nat (n div 10)) \<or> c = digit_chr (n mod 10)"
      by (auto simp: str_nat_big [OF True])
    then show ?thesis
    proof
      assume "c \<in> set (str_nat (n div 10))"
      with True "1.IH" show ?thesis by simp
    next
      assume "c = digit_chr (n mod 10)"
      moreover have "n mod 10 < 10" by simp
      ultimately show ?thesis by blast
    qed
  next
    case False
    then have "n < 10" by simp
    with "1.prems" show ?thesis by (auto simp: str_nat_small)
  qed
qed

lemma str_nat_chars_ge: "c \<in> set (str_nat n) \<Longrightarrow> (48::nat) \<le> of_char c"
proof -
  assume "c \<in> set (str_nat n)"
  then obtain d where d: "d < 10" and c: "c = digit_chr d"
    using str_nat_chars by blast
  from of_char_digit [OF d] show ?thesis by (simp add: c)
qed

lemma str_nat_no_point: "CHR ''.'' \<notin> set (str_nat n)"
proof
  assume "CHR ''.'' \<in> set (str_nat n)"
  from str_nat_chars_ge [OF this] show False by simp
qed

lemma str_nat_no_comma: "CHR '','' \<notin> set (str_nat n)"
proof
  assume "CHR '','' \<in> set (str_nat n)"
  from str_nat_chars_ge [OF this] show False by simp
qed

lemma str_nat_no_minus: "CHR ''-'' \<notin> set (str_nat n)"
proof
  assume "CHR ''-'' \<in> set (str_nat n)"
  from str_nat_chars_ge [OF this] show False by simp
qed

lemma str_nat_nonempty: "str_nat n \<noteq> []"
  by (subst str_nat.simps) simp

lemma hd_str_nat: "hd (str_nat n) \<noteq> CHR ''-''"
  using str_nat_no_minus [of n] str_nat_nonempty [of n] by (cases "str_nat n") auto


lemma split_at_point:
  assumes "CHR ''.'' \<notin> set ip"
  shows "takeWhile (\<lambda>c. c \<noteq> CHR ''.'') (ip @ CHR ''.'' # fp) = ip"
    and "dropWhile (\<lambda>c. c \<noteq> CHR ''.'') (ip @ CHR ''.'' # fp) = CHR ''.'' # fp"
  using assms by (induction ip) auto

lemma split_at_comma:
  assumes "CHR '','' \<notin> set a"
  shows "dropWhile (\<lambda>c. c \<noteq> CHR '','') (a @ CHR '','' # b) = CHR '','' # b"
  using assms by (induction a) auto

lemma parse_unsigned_fmt:
  "parse_unsigned (str_nat (micros x div 1000000) @ ''.'' @ pad6 (str_nat (micros x mod 1000000)))
     = of_nat (micros x) / 1000000"
proof -
  let ?m = "micros x"
  let ?ip = "str_nat (?m div 1000000)"
  let ?fp = "pad6 (str_nat (?m mod 1000000))"
  have len: "length ?fp = 6" by (rule pad6_length) simp
  have fv: "digits_val ?fp = ?m mod 1000000"
    by (simp add: pad6_def digits_val_pad digits_val_str_nat)
  have "parse_unsigned (?ip @ ''.'' @ ?fp)
          = of_nat (digits_val ?ip) + of_nat (digits_val ?fp) / 10 ^ length ?fp"
    using split_at_point [OF str_nat_no_point, of "?m div 1000000" ?fp]
    by (simp add: parse_unsigned_def Let_def)
  also have "\<dots> = of_nat (?m div 1000000) + of_nat (?m mod 1000000) / 1000000"
    by (simp add: digits_val_str_nat fv len)
  also have "\<dots> = of_nat ?m / 1000000"
  proof -
    have "?m div 1000000 * 1000000 + ?m mod 1000000 = ?m" by simp
    then have "(of_nat (?m div 1000000 * 1000000 + ?m mod 1000000) :: rat) = of_nat ?m"
      by (simp only:)
    then have "(of_nat (?m div 1000000) :: rat) * 1000000 + of_nat (?m mod 1000000) = of_nat ?m"
      by (simp only: of_nat_add of_nat_mult of_nat_numeral)
    then show ?thesis
      by (simp add: add_divide_distrib [symmetric] del: of_nat_mod of_nat_div)
  qed
  finally show ?thesis .
qed

lemma parse_decimal_fmt: "parse_decimal (fmt_6f x) = value_6f x"
proof (cases "x < 0")
  case True
  then show ?thesis
    using parse_unsigned_fmt [of x]
    by (simp add: parse_decimal_def fmt_6f_def value_6f_def)
next
  case False
  let ?ip = "str_nat (micros x div 1000000)"
  from hd_str_nat [of "micros x div 1000000"] str_nat_nonempty [of "micros x div 1000000"]
  have "hd (?ip @ ''.'' @ pad6 (str_nat (micros x mod 1000000))) \<noteq> CHR ''-''"
    by (simp add: hd_append)
  with False show ?thesis
    using parse_unsigned_fmt [of x]
    by (simp add: parse_decimal_def fmt_6f_def value_6f_def)
qed

lemma unix_time_of_row_fmt:
  "unix_time_of_row (str_int i @ '','' @ fmt_6f t) = value_6f t"
proof -
  have "CHR '','' \<notin> set (str_int i)"
    by (simp add: str_int_def str_nat_no_comma)
  from split_at_comma [OF this, of "fmt_6f t"] show ?thesis
    by (simp add: unix_time_of_row_def parse_decimal_fmt)
qed

lemma round_half_even_lower: "\<lfloor>q\<rfloor> \<le> round_half_even q"
  by (simp add: round_half_even_def Let_def)

lemma round_half_even_upper: "round_half_even q \<le> \<lfloor>q\<rfloor> + 1"
  by (simp add: round_half_even_def Let_def)

lemma round_half_even_mono:
  assumes "q \<le> q'"
  shows "round_half_even q \<le> round_half_even q'"
proof (cases "\<lfloor>q\<rfloor> = \<lfloor>q'\<rfloor>")
  case True
  define f where "f = \<lfloor>q\<rfloor>"
  define d where "d = q - of_int f"
  define d' where "d' = q' - of_int f"
  from assms have dd: "d \<le> d'" by (simp add: d_def d'_def)
  have a: "round_half_even q = (if d < 1 / 2 then f else if 1 / 2 < d then f + 1 else if even f then f else f + 1)"
    by (simp add: round_half_even_def Let_def f_def d_def)
  have b: "round_half_even q' = (if d' < 1 / 2 then f else if 1 / 2 < d' then f + 1 else if even f then f else f + 1)"
    using True by (simp add: round_half_even_def Let_def f_def d'_def)
  from dd show ?thesis unfolding a b by (simp split: if_splits)
next
  case False
  from assms have "\<lfloor>q\<rfloor> \<le> \<lfloor>q'\<rfloor>" by (rule floor_mono)
  with False have "\<lfloor>q\<rfloor> + 1 \<le> \<lfloor>q'\<rfloor>" by simp
  with round_half_even_upper [of q] round_half_even_lower [of q'] show ?thesis by linarith
qed

lemma micros_mono: "\<bar>x\<bar> \<le> \<bar>y\<bar> \<Longrightarrow> micros x \<le> micros y"
proof -
  assume "\<bar>x\<bar> \<le> \<bar>y\<bar>"
  then have "\<bar>x\<bar> * 1000000 \<le> \<bar>y\<bar> * 1000000" by simp
  then have "round_half_even (\<bar>x\<bar> * 1000000) \<le> round_half_even (\<bar>y\<bar> * 1000000)"
    by (rule round_half_even_mono)
  then show ?thesis by (simp add: micros_def nat_mono)
qed

lemma value_6f_mono:
  assumes "x \<le> y"
  shows "value_6f x \<le> value_6f y"
proof -
  consider "y < 0" | "x < 0" "0 \<le> y" | "0 \<le> x" using assms by linarith
  then show ?thesis
  proof cases
    case 1
    with assms have "\<bar>y\<bar> \<le> \<bar>x\<bar>" and "x < 0" by simp_all
    with 1 micros_mono [of y x] show ?thesis by (simp add: value_6f_def)
  next
    case 2
    then show ?thesis by (simp add: value_6f_def)
  next
    case 3
    with assms have "\<bar>x\<bar> \<le> \<bar>y\<bar>" and "0 \<le> y" by simp_all
    with 3 micros_mono [of x y] show ?thesis by (simp add: value_6f_def)
  qed
qed

lemma sorted_value_6f: "sorted ts \<Longrightarrow> sorted (map value_6f ts)"
  by (induction ts) (auto simp: value_6f_mono)

lemma out_dir_demo: "out_dir cfg_demo = [''tmp'', ''rec'']"
  by (simp add: cfg_demo_def)

lemma run_Nil: "run [] rw = rw"
  by (simp add: run_def)

lemma run_Cons: "run (c # cs) rw = run cs (step c rw)"
  by (simp add: run_def)

lemma run_append: "run (cs @ ds) rw = run ds (run cs rw)"
  by (simp add: run_def)

lemma run_writes:
  assumes "writer r = Some wr" and "ts_file r = Some ts"
  shows "texts w ts = Some (Text c) \<Longrightarrow>
         fst (run (map (\<lambda>(frame_bgr, i, t). Write frame_bgr i t) ticks) (r, w)) = r \<and>
         texts (snd (run (map (\<lambda>(frame_bgr, i, t). Write frame_bgr i t) ticks) (r, w))) ts
           = Some (Text (c @ concat (map (\<lambda>(frame_bgr, i, t). ts_row i t) ticks)))"
proof (induction ticks arbitrary: w c)
  case Nil
  then show ?case by (simp add: run_def)
next
  case (Cons tick ticks)
  obtain frame_bgr i t where tick: "tick = (frame_bgr, i, t)" by (rule prod_cases3)
  define w' where "w' = log_event [VideoWriterWrite wr frame_bgr, FileWrite ts (ts_row i t)]
                          (w\<lparr>texts := file_write ts (ts_row i t) (texts w)\<rparr>)"
  from assms have s: "write_frame frame_bgr i t (r, w) = (r, w')"
    by (simp add: write_frame_def w'_def)
  from Cons.prems have "texts w' ts = Some (Text (c @ ts_row i t))"
    by (simp add: w'_def log_event_def file_write_def)
  from Cons.IH [OF this] show ?case
    by (simp add: tick run_Cons s)
qed


subsection \<open>Claims\<close>



text \<open>
  C10. When \<open>start\<close> raises the no-supported-codec error, it has already created the
  output directory with all its ancestors (a second creation adds nothing) and has
  already stored the \<open>frame_size\<close> argument; the writer, the log handle, the start time
  and \<open>is_recording\<close> are what they were, and no text file was touched.
\<close>

theorem start_failure_not_atomic:
  assumes "start enc cfg fsz now (r, w)
             = (Some (RuntimeError ''Failed to open VideoWriter (no supported codec).''), r', w')"
  shows "dirs w' = mkdir_parents (out_dir cfg) (dirs w) \<and>
         out_dir cfg \<in> dirs w' \<and> (\<forall>n. take n (out_dir cfg) \<in> dirs w') \<and>
         mkdir_parents (out_dir cfg) (dirs w') = dirs w' \<and>
         frame_size r' = Some fsz \<and>
         writer r' = writer r \<and> ts_file r' = ts_file r \<and> start_time r' = start_time r \<and>
         is_recording r' = is_recording r \<and> texts w' = texts w"
proof (cases "find (opens enc cfg fsz) fourcc_candidates")
  case None
  have mem: "take n d \<in> mkdir_parents d ds" for n and d :: path and ds
  proof (cases "n \<le> length d")
    case True
    then have "n < Suc (length d)" by arith
    then have "n \<in> set [0..<Suc (length d)]"
      by (simp only: set_upt atLeastLessThan_iff le0 simp_thms)
    then show ?thesis unfolding mkdir_parents_def by (metis UnI2 image_eqI set_map)
  next
    case False
    then have "take n d = take (length d) d" by simp
    moreover have "length d \<in> set [0..<Suc (length d)]"
      by (simp only: set_upt atLeastLessThan_iff le0 lessI simp_thms)
    ultimately show ?thesis unfolding mkdir_parents_def by (metis UnI2 image_eqI set_map)
  qed
  from assms start_no_codec [OF None, of now r w]
  have r': "r' = r\<lparr>frame_size := Some fsz\<rparr>"
    and w': "w' = log_event (Mkdir (out_dir cfg) # map (attempt cfg fsz False) fourcc_candidates)
                   (w\<lparr>dirs := mkdir_parents (out_dir cfg) (dirs w)\<rparr>)"
    by simp_all
  have d: "dirs w' = mkdir_parents (out_dir cfg) (dirs w)"
    by (simp add: w' log_event_def)
  have i: "mkdir_parents (out_dir cfg) (dirs w') = dirs w'"
    unfolding d by (auto simp: mkdir_parents_def)
  have m: "\<forall>n. take n (out_dir cfg) \<in> dirs w'"
    unfolding d using mem by blast
  from m have o: "out_dir cfg \<in> dirs w'"
    by (metis order_refl take_all)
  from d i m o show ?thesis
    by (simp add: r' w' is_recording_def log_event_def)
next
  case (Some c)
  show ?thesis
  proof (cases "log_openable cfg w")
    case True
    from assms start_opened [OF Some True, of now r] show ?thesis by simp
  next
    case False
    from assms start_open_fails [OF Some False, of now r] show ?thesis by simp
  qed
qed

theorem start_failure_not_atomic_witness:
  "start host_no_codec cfg_demo (640, 480) 5 (FrameRecorder_init, world_empty)
     = (Some (RuntimeError ''Failed to open VideoWriter (no supported codec).''),
        FrameRecorder_init\<lparr>frame_size := Some (640, 480)\<rparr>,
        log_event (Mkdir [''tmp'', ''rec''] # map (attempt cfg_demo (640, 480) False) fourcc_candidates)
          (world_empty\<lparr>dirs := {[], [''tmp''], [''tmp'', ''rec'']}\<rparr>)) \<and>
   [''tmp'', ''rec''] \<in> {[], [''tmp''], [''tmp'', ''rec'']} \<and>
   \<not> is_recording (FrameRecorder_init\<lparr>frame_size := Some (640, 480)\<rparr>)"
proof -
  have md: "mkdir_parents [''tmp'', ''rec''] {} = {[], [''tmp''], [''tmp'', ''rec'']}"
    by (simp add: mkdir_parents_def upt_rec)
  have s: "start host_no_codec cfg_demo (640, 480) 5 (FrameRecorder_init, world_empty)
     = (Some (RuntimeError ''Failed to open VideoWriter (no supported codec).''),
        FrameRecorder_init\<lparr>frame_size := Some (640, 480)\<rparr>,
        log_event (Mkdir [''tmp'', ''rec''] # map (attempt cfg_demo (640, 480) False) fourcc_candidates)
          (world_empty\<lparr>dirs := {[], [''tmp''], [''tmp'', ''rec'']}\<rparr>))"
    using start_no_codec [OF find_demo_none, of cfg_demo "(640, 480)" 5 FrameRecorder_init world_empty] md
    by (simp add: cfg_demo_def world_empty_def)
  from start_failure_not_atomic [OF s] s show ?thesis
    by (simp add: is_recording_def FrameRecorder_init_def)
qed

text \<open>
  C5. \<open>write\<close> on a recorder that is not recording is a no-op: it returns normally (the
  model of \<open>write\<close> has no error branch), and the recorder and the world, that is the
  directories, the text files and the trace of collaborator calls, are exactly what they
  were, for every frame, frame index and clock reading.
\<close>

theorem write_idle_noop:
  "\<not> is_recording r \<Longrightarrow> write_frame frame_bgr frame_idx now (r, w) = (r, w)"
  by (simp add: write_frame_def is_recording_def)

theorem write_idle_noop_witness:
  "\<not> is_recording FrameRecorder_init \<and>
   write_frame \<lparr>rows = 0, cols = 0, pix = []\<rparr> 7 1
     (FrameRecorder_init, \<lparr>dirs = {}, texts = Map.empty, trace = []\<rparr>)
   = (FrameRecorder_init, \<lparr>dirs = {}, texts = Map.empty, trace = []\<rparr>)"
  using write_idle_noop [of FrameRecorder_init "\<lparr>rows = 0, cols = 0, pix = []\<rparr>" 7 1
      "\<lparr>dirs = {}, texts = Map.empty, trace = []\<rparr>"]
  by (simp add: is_recording_def FrameRecorder_init_def)

text \<open>
  C6. \<open>stop\<close> never raises (its model has no error branch) and is idempotent. It
  releases the writer if there is one, then closes the log if there is one, in this
  order, as the trace shows, touches no directory and no file content, and leaves the
  recorder with every field of the session cleared. A second \<open>stop\<close> finds no handle:
  it adds nothing to the trace and changes nothing.
\<close>

theorem stop_idempotent:
  "stop (stop (r, w)) = stop (r, w) \<and>
   fst (stop (r, w)) = FrameRecorder_init \<and>
   dirs (snd (stop (r, w))) = dirs w \<and> texts (snd (stop (r, w))) = texts w \<and>
   trace (snd (stop (r, w))) =
     trace w @ (case writer r of Some wr \<Rightarrow> [VideoWriterRelease wr] | None \<Rightarrow> [])
             @ (case ts_file r of Some ts \<Rightarrow> [FileClose ts] | None \<Rightarrow> []) \<and>
   trace (snd (stop (stop (r, w)))) = trace (snd (stop (r, w)))"
  by (cases r) (simp add: stop_def FrameRecorder_init_def log_event_def split: option.split)

theorem stop_idempotent_witness:
  "trace (snd (stop (recorder_armed, world_empty)))
     = [VideoWriterRelease writer_demo, FileClose [''tmp'', ''rec'', ''timestamps.csv'']] \<and>
   fst (stop (recorder_armed, world_empty)) = FrameRecorder_init \<and>
   trace (snd (stop (stop (recorder_armed, world_empty))))
     = [VideoWriterRelease writer_demo, FileClose [''tmp'', ''rec'', ''timestamps.csv'']] \<and>
   stop (FrameRecorder_init, world_empty) = (FrameRecorder_init, world_empty)"
  using stop_idempotent [of recorder_armed world_empty]
        stop_idempotent [of FrameRecorder_init world_empty]
  by (simp add: recorder_armed_def world_empty_def FrameRecorder_init_def prod_eq_iff)

text \<open>
  C9. The two handles are not always held together. \<open>start\<close> stores the writer on line
  52 and opens the log on line 53: when \<open>open\<close> raises, here because \<open>timestamps.csv\<close> in
  the output directory is a directory, the recorder is left with a writer and no log
  handle. This state is reached by one call from the initial state; in it
  \<open>is_recording\<close> holds and \<open>write\<close> persists nothing.
\<close>

theorem start_open_failure_unpaired:
  "fst (start host_only_mp4v cfg_demo (640, 480) 5 (FrameRecorder_init, world_log_is_dir))
     = Some (OSError [''tmp'', ''rec'', ''timestamps.csv'']) \<and>
   writer (fst (run [Start host_only_mp4v cfg_demo (640, 480) 5]
                  (FrameRecorder_init, world_log_is_dir))) = Some writer_demo \<and>
   ts_file (fst (run [Start host_only_mp4v cfg_demo (640, 480) 5]
                   (FrameRecorder_init, world_log_is_dir))) = None \<and>
   \<not> handles_paired (fst (run [Start host_only_mp4v cfg_demo (640, 480) 5]
                            (FrameRecorder_init, world_log_is_dir))) \<and>
   is_recording (fst (run [Start host_only_mp4v cfg_demo (640, 480) 5]
                        (FrameRecorder_init, world_log_is_dir))) \<and>
   write_frame frame_empty 0 6
       (run [Start host_only_mp4v cfg_demo (640, 480) 5] (FrameRecorder_init, world_log_is_dir))
     = run [Start host_only_mp4v cfg_demo (640, 480) 5] (FrameRecorder_init, world_log_is_dir)"
proof -
  note s = start_open_fails [OF find_demo_mp4v not_openable_demo, of 5 FrameRecorder_init]
  have r: "run [Start host_only_mp4v cfg_demo (640, 480) 5] (FrameRecorder_init, world_log_is_dir)
             = snd (start host_only_mp4v cfg_demo (640, 480) 5 (FrameRecorder_init, world_log_is_dir))"
    by (simp add: run_Cons run_Nil)
  have none: "ts_file FrameRecorder_init = None"
    by (simp add: FrameRecorder_init_def)
  show ?thesis
    unfolding r
    by (simp add: s out_dir_demo writer_demo_def handles_paired_def is_recording_def
          none write_frame_def)
qed

text \<open>
  C2, as amended. On a successful \<open>start\<close> of a recorder that holds no handle, the log
  \<open>timestamps.csv\<close> is opened in write mode, which discards what the file held, and the
  header is written. Each \<open>write\<close> of the session appends one row. After \<open>start\<close>, one
  \<open>write\<close> per tick and \<open>stop\<close>, the file holds the header and then the rows of the ticks
  in the order of the calls: its first line is \<open>frame_idx,unix_time\<close>, line \<open>k + 1\<close> is
  the frame index and the clock reading of tick \<open>k\<close>, and there are \<open>N + 1\<close> lines for
  \<open>N\<close> ticks. The \<open>unix_time\<close> values read back from the rows of the file are
  non-decreasing whenever the readings of \<open>time.time()\<close> are.
\<close>

theorem timestamp_log_rows:
  assumes "\<not> is_recording r" and "ts_file r = None"
    and "fst (start enc cfg fsz t0 (r, w)) = None"
  shows
    "texts (snd (run (session enc cfg fsz t0 ticks) (r, w))) (out_dir cfg @ [''timestamps.csv''])
       = Some (Text (ts_header @ concat (map (\<lambda>(frame_bgr, i, t). ts_row i t) ticks))) \<and>
     lines_of (ts_header @ concat (map (\<lambda>(frame_bgr, i, t). ts_row i t) ticks))
       = ''frame_idx,unix_time'' # map (\<lambda>(frame_bgr, i, t). str_int i @ '','' @ fmt_6f t) ticks \<and>
     length (lines_of (ts_header @ concat (map (\<lambda>(frame_bgr, i, t). ts_row i t) ticks)))
       = length ticks + 1 \<and>
     (sorted (map (\<lambda>(frame_bgr, i, t). t) ticks)
        \<longrightarrow> sorted (map unix_time_of_row
                    (tl (lines_of (ts_header @ concat (map (\<lambda>(frame_bgr, i, t). ts_row i t) ticks))))))"
proof -
  let ?ts = "out_dir cfg @ [''timestamps.csv'']"
  let ?writes = "map (\<lambda>(frame_bgr, i, t). Write frame_bgr i t) ticks"
  obtain c where found: "find (opens enc cfg fsz) fourcc_candidates = Some c"
  proof (cases "find (opens enc cfg fsz) fourcc_candidates")
    case None
    from assms(3) show ?thesis by (simp add: start_no_codec [OF None])
  next
    case (Some c)
    then show ?thesis by (rule that)
  qed
  have openable: "log_openable cfg w"
  proof (rule ccontr)
    assume closed: "\<not> log_openable cfg w"
    from assms(3) show False by (simp add: start_open_fails [OF found closed])
  qed
  obtain r1 w1 where s1: "snd (start enc cfg fsz t0 (r, w)) = (r1, w1)"
    by (rule prod.exhaust)
  from s1 assms(2) have armed: "writer r1 = Some (writer_for cfg fsz c)" "ts_file r1 = Some ?ts"
    and t1: "texts w1 ?ts = Some (Text ts_header)"
    by (auto simp: start_opened [OF found openable] log_event_def)
  obtain r2 w2 where s2: "run ?writes (r1, w1) = (r2, w2)"
    by (rule prod.exhaust)
  from run_writes [OF armed t1, of ticks] s2
  have t2: "texts w2 ?ts = Some (Text (ts_header @ concat (map (\<lambda>(frame_bgr, i, t). ts_row i t) ticks)))"
    by simp
  have "run (session enc cfg fsz t0 ticks) (r, w) = stop (r2, w2)"
    by (simp add: session_def run_Cons run_append run_Nil s1 s2)
  moreover have "texts (snd (stop (r2, w2))) ?ts = texts w2 ?ts"
    by (simp add: stop_def log_event_def Let_def split: option.split)
  ultimately have a: "texts (snd (run (session enc cfg fsz t0 ticks) (r, w))) ?ts
       = Some (Text (ts_header @ concat (map (\<lambda>(frame_bgr, i, t). ts_row i t) ticks)))"
    by (simp add: t2)
  have rd: "map unix_time_of_row (map (\<lambda>(frame_bgr, i, t). str_int i @ '','' @ fmt_6f t) ticks)
              = map value_6f (map (\<lambda>(frame_bgr, i, t). t) ticks)"
    using unix_time_of_row_fmt by (simp add: case_prod_unfold)
  have srt: "sorted (map (\<lambda>(frame_bgr, i, t). t) ticks)
        \<longrightarrow> sorted (map unix_time_of_row
                    (tl (lines_of (ts_header @ concat (map (\<lambda>(frame_bgr, i, t). ts_row i t) ticks)))))"
  proof
    assume "sorted (map (\<lambda>(frame_bgr, i, t). t) ticks)"
    from sorted_value_6f [OF this]
    show "sorted (map unix_time_of_row
                    (tl (lines_of (ts_header @ concat (map (\<lambda>(frame_bgr, i, t). ts_row i t) ticks)))))"
      by (simp only: lines_of_log list.sel rd)
  qed
  from a srt show ?thesis
    by (simp add: lines_of_log)
qed

theorem timestamp_log_rows_witness:
  "\<not> is_recording FrameRecorder_init \<and> ts_file FrameRecorder_init = None \<and>
   fst (start host_only_mp4v cfg_demo (640, 480) 5 (FrameRecorder_init, world_stale)) = None \<and>
   texts (snd (run (session host_only_mp4v cfg_demo (640, 480) 5
                     [(frame_empty, 0, 1), (frame_empty, 1, 2), (frame_empty, 2, 2)])
                (FrameRecorder_init, world_stale))) [''tmp'', ''rec'', ''timestamps.csv'']
     = Some (Text (''frame_idx,unix_time'' @ [CHR 0x0A] @ ''0,1.000000'' @ [CHR 0x0A]
                   @ ''1,2.000000'' @ [CHR 0x0A] @ ''2,2.000000'' @ [CHR 0x0A])) \<and>
   sorted [1, 2, 2 :: rat] \<and>
   sorted (map unix_time_of_row [''0,1.000000'', ''1,2.000000'', ''2,2.000000''])"
proof -
  have idle: "\<not> is_recording FrameRecorder_init" "ts_file FrameRecorder_init = None"
    by (simp_all add: is_recording_def FrameRecorder_init_def)
  have ok: "fst (start host_only_mp4v cfg_demo (640, 480) 5 (FrameRecorder_init, world_stale)) = None"
    by (simp add: start_opened [OF find_demo_mp4v openable_demo(2)])
  from timestamp_log_rows [OF idle ok, of "[(frame_empty, 0, 1), (frame_empty, 1, 2), (frame_empty, 2, 2)]"]
  show ?thesis
    by (simp add: idle ok out_dir_demo ts_header_def ts_row_def fmt_6f_1 fmt_6f_2 str_eval)
qed

text \<open>
  C2 as first stated does not hold of the code. In a directory that already holds a
  \<open>timestamps.csv\<close>, \<open>start\<close> does not append to it: the old content is gone. And
  \<open>time.time()\<close> is the wall clock, which may be set back between two calls: with the
  readings 2 and then 1 the \<open>unix_time\<close> column of the file decreases.
\<close>

theorem timestamp_log_counterexample:
  "texts world_stale [''tmp'', ''rec'', ''timestamps.csv''] = Some (Text (''stale'' @ [CHR 0x0A])) \<and>
   fst (start host_only_mp4v cfg_demo (640, 480) 5 (FrameRecorder_init, world_stale)) = None \<and>
   texts (snd (snd (start host_only_mp4v cfg_demo (640, 480) 5 (FrameRecorder_init, world_stale))))
       [''tmp'', ''rec'', ''timestamps.csv'']
     \<noteq> Some (Text (''stale'' @ [CHR 0x0A] @ ts_header)) \<and>
   texts (snd (run (session host_only_mp4v cfg_demo (640, 480) 5
                     [(frame_empty, 0, 2), (frame_empty, 1, 1)])
                (FrameRecorder_init, world_stale))) [''tmp'', ''rec'', ''timestamps.csv'']
     = Some (Text (''frame_idx,unix_time'' @ [CHR 0x0A] @ ''0,2.000000'' @ [CHR 0x0A]
                   @ ''1,1.000000'' @ [CHR 0x0A])) \<and>
   lines_of (''frame_idx,unix_time'' @ [CHR 0x0A] @ ''0,2.000000'' @ [CHR 0x0A]
             @ ''1,1.000000'' @ [CHR 0x0A])
     = [''frame_idx,unix_time'', ''0,2.000000'', ''1,1.000000''] \<and>
   map unix_time_of_row [''0,2.000000'', ''1,1.000000''] = [2, 1] \<and>
   \<not> sorted (map unix_time_of_row [''0,2.000000'', ''1,1.000000''])"
proof -
  let ?ts = "[''tmp'', ''rec'', ''timestamps.csv'']"
  note s = start_opened [OF find_demo_mp4v openable_demo(2), of 5 FrameRecorder_init]
  have none: "ts_file FrameRecorder_init = None"
    by (simp add: FrameRecorder_init_def)
  have a: "texts world_stale ?ts = Some (Text (''stale'' @ [CHR 0x0A]))"
    by (simp add: world_stale_def)
  have b: "texts (snd (snd (start host_only_mp4v cfg_demo (640, 480) 5 (FrameRecorder_init, world_stale)))) ?ts
             = Some (Text ts_header)"
    by (simp add: s log_event_def out_dir_demo none)
  have c: "texts (snd (run (session host_only_mp4v cfg_demo (640, 480) 5
                     [(frame_empty, 0, 2), (frame_empty, 1, 1)])
                (FrameRecorder_init, world_stale))) ?ts
     = Some (Text (''frame_idx,unix_time'' @ [CHR 0x0A] @ ''0,2.000000'' @ [CHR 0x0A]
             @ ''1,1.000000'' @ [CHR 0x0A]))"
    by (simp add: session_def run_def s none write_frame_def stop_def log_event_def file_write_def
          out_dir_demo ts_header_def ts_row_def fmt_6f_1 fmt_6f_2 str_eval)
  have d2: "unix_time_of_row ''0,2.000000'' = 2"
    using unix_time_of_row_fmt [of 0 2] by (simp add: fmt_6f_2 str_eval value_6f_2)
  have d1: "unix_time_of_row ''1,1.000000'' = 1"
    using unix_time_of_row_fmt [of 1 1] by (simp add: fmt_6f_1 str_eval value_6f_1)
  from a b c show ?thesis
    by (simp add: s ts_header_def d1 d2)
qed

section \<open>Properties of the frame provider\<close>

subsection \<open>Shapes and contents of the panels\<close>

lemma roll_row_length: "length (roll_row k xs) = length xs"
  by (simp add: roll_row_def Let_def)

lemma roll_row_nth:
  assumes "x < length xs"
  shows "roll_row k xs ! x = xs ! nat ((int x - int k) mod int (length xs))"
proof -
  define n where "n = length xs"
  define s where "s = k mod n"
  from assms have xn: "x < n" by (simp add: n_def)
  then have n: "0 < n" by arith
  then have sn: "s < n" by (simp add: s_def)
  have ne: "xs \<noteq> []" using assms by (cases xs) simp_all
  have r: "roll_row k xs = drop (n - s) xs @ take (n - s) xs"
    using ne by (simp add: roll_row_def Let_def n_def s_def)
  have m: "(int x - int k) mod int n = (int x - int s) mod int n"
    unfolding s_def by (simp add: zmod_int mod_diff_right_eq)
  show ?thesis
  proof (cases "x < s")
    case True
    have "(int x - int s) mod int n = (int x - int s + int n) mod int n" by simp
    also have "\<dots> = int x - int s + int n"
      using True sn by (intro mod_pos_pos_trivial) auto
    finally have i: "(int x - int s) mod int n = int x - int s + int n" .
    have "roll_row k xs ! x = xs ! (n - s + x)"
      using True sn by (simp add: r nth_append n_def)
    moreover have "nat (int x - int s + int n) = n - s + x" using True sn by simp
    ultimately show ?thesis by (simp add: m i n_def [symmetric])
  next
    case False
    with xn have i: "(int x - int s) mod int n = int x - int s" by simp
    have "roll_row k xs ! x = xs ! (x - s)"
      using False sn xn by (simp add: r nth_append n_def)
    moreover have "nat (int x - int s) = x - s" using False by simp
    ultimately show ?thesis by (simp add: m i n_def [symmetric])
  qed
qed


lemma draw_shape: "rows (draw p img) = rows img" "cols (draw p img) = cols img" "wf_array (draw p img)"
  by (simp_all add: draw_def wf_array_def list_all_iff)

lemma base_panel_shape:
  assumes "base_panel cv s t = Inr base"
  shows "rows base = nat (height s)" "cols base = nat (width s)" "wf_array base"
    "0 \<le> height s" "0 \<le> width s"
  using assms
  by (auto simp: base_panel_def np_zeros_def draw_shape split: if_splits)

lemma base_panel_positive:
  assumes "base_panel cv s t = Inr base"
  shows "0 < height s" "0 < width s"
  using assms
  by (auto simp: base_panel_def np_zeros_def split: if_splits)

lemma base_panel_total:
  "0 < height s \<Longrightarrow> 0 < width s \<Longrightarrow> \<exists>base. base_panel cv s t = Inr base"
  by (simp add: base_panel_def np_zeros_def)

lemma np_roll_shape:
  "rows (np_roll k a) = rows a" "cols (np_roll k a) = cols a"
  "wf_array a \<Longrightarrow> wf_array (np_roll k a)"
  by (simp_all add: np_roll_def wf_array_def list_all_iff roll_row_length)

lemma disparity_panel_shape:
  "rows (disparity_panel cv base right) = rows base"
  "cols (disparity_panel cv base right) = cols base"
  by (simp_all add: disparity_panel_def map_array_def cv2_absdiff_def)


lemma disparity_panel_wf:
  assumes "wf_array base" and "wf_array right" and "rows right = rows base" and "cols right = cols base"
  shows "wf_array (disparity_panel cv base right)"
proof -
  have len: "length (pix (cv2_absdiff base right)) = rows base"
    using assms by (simp add: cv2_absdiff_def wf_array_def)
  have row: "length row = cols base" if "row \<in> set (pix (cv2_absdiff base right))" for row
  proof -
    from that obtain a b where ab: "(a, b) \<in> set (zip (pix base) (pix right))"
      and r: "row = map2 (\<lambda>(b1, g1, r1) (b2, g2, r2).
                   (absdiff_u8 b1 b2, absdiff_u8 g1 g2, absdiff_u8 r1 r2)) a b"
      by (auto simp: cv2_absdiff_def)
    from ab have "a \<in> set (pix base)" and "b \<in> set (pix right)"
      by (auto dest: set_zip_leftD set_zip_rightD)
    with assms have "length a = cols base" and "length b = cols base"
      by (simp_all add: wf_array_def list_all_iff)
    with r show ?thesis by simp
  qed
  from len row show ?thesis
    by (simp add: disparity_panel_def map_array_def wf_array_def list_all_iff cv2_absdiff_def)
qed

lemma composed_eq:
  assumes "base_panel cv s t = Inr base"
  shows "composed cv s t =
    Inr \<lparr>rows = rows base, cols = panel_count s * cols base,
         pix = map (\<lambda>y. pix base ! y
                        @ (if show_right s then pix (np_roll 18 base) ! y else [])
                        @ (if show_disparity s
                           then pix (disparity_panel cv base (np_roll 18 base)) ! y else []))
                   [0..<rows base]\<rparr>"
  using assms
  by (simp add: composed_def Let_def panel_count_def np_roll_shape disparity_panel_shape)

lemma wf_row: "wf_array a \<Longrightarrow> y < rows a \<Longrightarrow> length (pix a ! y) = cols a"
  by (simp add: wf_array_def list_all_length)

lemma composed_wf:
  assumes "base_panel cv s t = Inr base" and "composed cv s t = Inr frame"
  shows "wf_array frame"
proof -
  let ?right = "np_roll 18 base"
  let ?disp = "disparity_panel cv base ?right"
  from base_panel_shape(3) [OF assms(1)] have b: "wf_array base" .
  then have r: "wf_array ?right" by (rule np_roll_shape(3))
  from b r have d: "wf_array ?disp"
    by (rule disparity_panel_wf) (simp_all add: np_roll_shape)
  have "length (pix base ! y
                 @ (if show_right s then pix ?right ! y else [])
                 @ (if show_disparity s then pix ?disp ! y else [])) = panel_count s * cols base"
    if "y < rows base" for y
    using that wf_row [OF b, of y] wf_row [OF r, of y] wf_row [OF d, of y]
    by (simp add: panel_count_def np_roll_shape disparity_panel_shape)
  with assms(2) show ?thesis
    by (auto simp: composed_eq [OF assms(1)] wf_array_def list_all_iff)
qed

lemma make_overlay_shape:
  "rows (make_overlay cv frame) = rows frame" "cols (make_overlay cv frame) = cols frame"
  by (simp_all add: make_overlay_def draw_shape)


subsection \<open>The two paths of \<open>get_frame\<close>\<close>

lemma get_frame_live:
  "live_frame self read = Some frame \<Longrightarrow> get_frame cv self read now = Inr (make_overlay cv frame)"
  by (auto simp: live_frame_def get_frame_def split: option.splits bool.splits prod.splits)

lemma get_frame_synthetic:
  "live_frame self read = None \<Longrightarrow>
   get_frame cv self read now =
     (case composed cv (provider_s self) (now - provider_t0 self) of
        Inl e \<Rightarrow> Inl e
      | Inr frame \<Rightarrow> Inr (make_overlay cv frame))"
  by (auto simp: live_frame_def get_frame_def split: option.splits bool.splits prod.splits)

lemma live_frame_no_cap: "live_frame (FrameProvider_init ui False t) read = None"
  by (simp add: live_frame_def FrameProvider_init_def)

lemma get_frame_no_cap:
  "get_frame cv (FrameProvider_init ui False t) read now =
     (case composed cv ui (now - t) of
        Inl e \<Rightarrow> Inl e
      | Inr frame \<Rightarrow> Inr (make_overlay cv frame))"
  unfolding get_frame_synthetic [OF live_frame_no_cap]
  by (simp add: FrameProvider_init_def)

lemma composed_total:
  assumes "0 < width ui" and "0 < height ui"
  shows "\<exists>frame. composed cv ui t = Inr frame \<and> rows frame = nat (height ui) \<and>
                 cols frame = panel_count ui * nat (width ui)"
proof -
  from assms obtain base where b: "base_panel cv ui t = Inr base"
    using base_panel_total [of ui cv t] by blast
  from base_panel_shape(1,2) [OF b] show ?thesis
    by (simp add: composed_eq [OF b])
qed

subsection \<open>Claims\<close>

text \<open>
  C3. For every configuration (with the positive width and height of the data model:
  \<open>np.zeros\<close> raises for a negative dimension and \<open>cv2.circle\<close> for a zero one) the
  synthetic frame is composed without error, is well formed, has the height
  of the base panel, and has the width of the base panel times 1 (no flag), 2
  (\<open>show_right\<close> only), 3 (both flags) or 2 (\<open>show_disparity\<close> only). Each of its rows is
  the row of the base panel, then the row of the shifted panel if \<open>show_right\<close> is set,
  then the row of the difference panel if \<open>show_disparity\<close> is set: with
  \<open>show_disparity\<close> alone the shifted panel is used for the difference and not appended.
  The overlay changes neither dimension.
\<close>

theorem composed_frame_shape:
  assumes "0 < width s" and "0 < height s"
  shows "\<exists>base frame.
           base_panel cv s t = Inr base \<and> rows base = nat (height s) \<and> cols base = nat (width s) \<and>
           composed cv s t = Inr frame \<and> wf_array frame \<and>
           rows frame = rows base \<and>
           cols frame = (if show_right s then (if show_disparity s then 3 else 2)
                         else (if show_disparity s then 2 else 1)) * cols base \<and>
           (\<forall>y < rows base.
              pix frame ! y =
                pix base ! y
                @ (if show_right s then pix (np_roll 18 base) ! y else [])
                @ (if show_disparity s
                   then pix (disparity_panel cv base (np_roll 18 base)) ! y else [])) \<and>
           rows (make_overlay cv frame) = rows frame \<and> cols (make_overlay cv frame) = cols frame"
proof -
  from assms obtain base where b: "base_panel cv s t = Inr base"
    using base_panel_total [of s cv t] by blast
  define frame where "frame =
    \<lparr>rows = rows base, cols = panel_count s * cols base,
     pix = map (\<lambda>y. pix base ! y
                    @ (if show_right s then pix (np_roll 18 base) ! y else [])
                    @ (if show_disparity s
                       then pix (disparity_panel cv base (np_roll 18 base)) ! y else []))
               [0..<rows base]\<rparr>"
  have c: "composed cv s t = Inr frame"
    unfolding frame_def by (rule composed_eq [OF b])
  have w: "wf_array frame" using b c by (rule composed_wf)
  have k: "cols frame = (if show_right s then (if show_disparity s then 3 else 2)
                         else (if show_disparity s then 2 else 1)) * cols base"
    by (simp add: frame_def panel_count_def)
  have p: "\<forall>y < rows base.
              pix frame ! y =
                pix base ! y
                @ (if show_right s then pix (np_roll 18 base) ! y else [])
                @ (if show_disparity s
                   then pix (disparity_panel cv base (np_roll 18 base)) ! y else [])"
    by (simp add: frame_def)
  have r: "rows frame = rows base" by (simp add: frame_def)
  from b c w k p r base_panel_shape(1,2) [OF b] show ?thesis
    by (intro exI [of _ base] exI [of _ frame]) (simp add: make_overlay_shape)
qed

theorem composed_frame_shape_witness:
  "\<exists>frame. composed libs_test UiSettings_default 7 = Inr frame \<and> rows frame = 480 \<and> cols frame = 2544"
proof -
  have "(0::int) < width UiSettings_default" and "(0::int) < height UiSettings_default"
    by (simp_all add: UiSettings_default_def)
  from composed_frame_shape [OF this, of libs_test 7] show ?thesis
    by (auto simp: UiSettings_default_def)
qed

text \<open>
  C4. For every elapsed time \<open>t\<close> and every position \<open>(x, y)\<close> of the base panel of width
  \<open>w\<close>, the secondary panel holds at \<open>(x, y)\<close> what the base panel holds at
  \<open>((x - 18) mod w, y)\<close>, and has the shape of the base panel: it is the base panel
  shifted circularly by 18 columns. When \<open>show_right\<close> is set this is what the composed
  frame holds in its second panel.
\<close>

theorem secondary_is_shifted_base:
  assumes "base_panel cv s t = Inr base" and "y < nat (height s)" and "x < nat (width s)"
  shows "pix (np_roll 18 base) ! y ! x = pix base ! y ! nat ((int x - 18) mod width s) \<and>
         rows (np_roll 18 base) = rows base \<and> cols (np_roll 18 base) = cols base \<and>
         (\<forall>frame. composed cv s t = Inr frame \<longrightarrow> show_right s \<longrightarrow>
            pix frame ! y ! (nat (width s) + x) = pix base ! y ! nat ((int x - 18) mod width s))"
proof -
  from base_panel_shape [OF assms(1)]
  have h: "rows base = nat (height s)" and w: "cols base = nat (width s)"
    and wf: "wf_array base" and nn: "0 \<le> width s" by simp_all
  from assms(2) h have y: "y < rows base" by simp
  from wf_row [OF wf y] w have len: "length (pix base ! y) = nat (width s)" by simp
  from wf y have ylen: "y < length (pix base)" by (simp add: wf_array_def)
  from nn have iw: "int (nat (width s)) = width s" by simp
  have "pix (np_roll 18 base) ! y ! x = roll_row 18 (pix base ! y) ! x"
    using ylen by (simp add: np_roll_def)
  also have "\<dots> = pix base ! y ! nat ((int x - int 18) mod int (length (pix base ! y)))"
    using assms(3) len by (intro roll_row_nth) simp
  finally have a: "pix (np_roll 18 base) ! y ! x = pix base ! y ! nat ((int x - 18) mod width s)"
    using nn by (simp add: len)
  have rl: "length (pix (np_roll 18 base) ! y) = nat (width s)"
    using ylen len by (simp add: np_roll_def roll_row_length)
  have b: "pix frame ! y ! (nat (width s) + x) = pix base ! y ! nat ((int x - 18) mod width s)"
    if "composed cv s t = Inr frame" and "show_right s" for frame
  proof -
    from that(1) have "pix frame ! y = pix base ! y
                @ (if show_right s then pix (np_roll 18 base) ! y else [])
                @ (if show_disparity s
                   then pix (disparity_panel cv base (np_roll 18 base)) ! y else [])"
      using y by (auto simp: composed_eq [OF assms(1)])
    with that(2) assms(3) a show ?thesis
      by (simp add: nth_append len rl)
  qed
  from a b show ?thesis
    by (simp add: np_roll_shape)
qed

theorem secondary_is_shifted_base_witness:
  "\<exists>base. base_panel libs_test UiSettings_default 7 = Inr base \<and>
          pix (np_roll 18 base) ! 10 ! 5 = pix base ! 10 ! 835 \<and>
          pix (np_roll 18 base) ! 10 ! 100 = pix base ! 10 ! 82"
proof -
  obtain base where b: "base_panel libs_test UiSettings_default 7 = Inr base"
    using base_panel_total [of UiSettings_default libs_test 7]
    by (auto simp: UiSettings_default_def)
  have "10 < nat (height UiSettings_default)" "5 < nat (width UiSettings_default)"
       "100 < nat (width UiSettings_default)"
    by (simp_all add: UiSettings_default_def)
  from secondary_is_shifted_base [OF b this(1,2)] secondary_is_shifted_base [OF b this(1,3)] b
  show ?thesis
    by (simp add: UiSettings_default_def)
qed

text \<open>
  C7. With the positive width and height of the data model, \<open>get_frame\<close> returns a
  frame, and never an error, for every outcome of the capture collaborator: without a
  capture handle, and when the read reports failure or gives no frame, the frame is the
  synthetic one, of the configured height and of the configured width times the number
  of panels; after a successful read it is the captured frame with the overlay. A
  provider constructed (without webcam, the constructor's default) for width 100, height
  50 and both flags off returns a frame of 50 rows and 100 columns at every call of
  every sequence of calls, whatever the clock reads. \<open>get_frame\<close> does not change the
  provider, so a sequence of calls is the list of their inputs.
\<close>

theorem get_frame_never_fails:
  "(0 < width (provider_s self) \<and> 0 < height (provider_s self) \<longrightarrow>
      (\<exists>frame. get_frame cv self read now = Inr frame \<and>
         (case live_frame self read of
            Some live \<Rightarrow> frame = make_overlay cv live
          | None \<Rightarrow>
              (\<exists>comp. composed cv (provider_s self) (now - provider_t0 self) = Inr comp \<and>
                      frame = make_overlay cv comp) \<and>
              rows frame = nat (height (provider_s self)) \<and>
              cols frame = panel_count (provider_s self) * nat (width (provider_s self))))) \<and>
   list_all (\<lambda>(read, now).
       \<exists>frame. get_frame cv (FrameProvider_init settings_100x50 False t) read now = Inr frame \<and>
               rows frame = 50 \<and> cols frame = 100) calls"
proof
  show "0 < width (provider_s self) \<and> 0 < height (provider_s self) \<longrightarrow>
      (\<exists>frame. get_frame cv self read now = Inr frame \<and>
         (case live_frame self read of
            Some live \<Rightarrow> frame = make_overlay cv live
          | None \<Rightarrow>
              (\<exists>comp. composed cv (provider_s self) (now - provider_t0 self) = Inr comp \<and>
                      frame = make_overlay cv comp) \<and>
              rows frame = nat (height (provider_s self)) \<and>
              cols frame = panel_count (provider_s self) * nat (width (provider_s self))))"
  proof
    assume pos: "0 < width (provider_s self) \<and> 0 < height (provider_s self)"
    show "\<exists>frame. get_frame cv self read now = Inr frame \<and>
         (case live_frame self read of
            Some live \<Rightarrow> frame = make_overlay cv live
          | None \<Rightarrow>
              (\<exists>comp. composed cv (provider_s self) (now - provider_t0 self) = Inr comp \<and>
                      frame = make_overlay cv comp) \<and>
              rows frame = nat (height (provider_s self)) \<and>
              cols frame = panel_count (provider_s self) * nat (width (provider_s self)))"
    proof (cases "live_frame self read")
      case (Some live)
      then show ?thesis by (simp add: get_frame_live)
    next
      case None
      from pos have "0 < width (provider_s self)" and "0 < height (provider_s self)" by simp_all
      from composed_total [OF this, of cv "now - provider_t0 self"]
      obtain comp where "composed cv (provider_s self) (now - provider_t0 self) = Inr comp"
        and "rows comp = nat (height (provider_s self))"
        and "cols comp = panel_count (provider_s self) * nat (width (provider_s self))"
        by blast
      with None show ?thesis
        by (simp add: get_frame_synthetic make_overlay_shape)
    qed
  qed
next
  have one: "\<exists>frame. get_frame cv (FrameProvider_init settings_100x50 False t) read now = Inr frame \<and>
               rows frame = 50 \<and> cols frame = 100" for read now
  proof -
    have "0 < width settings_100x50" and "0 < height settings_100x50"
      by (simp_all add: settings_100x50_def)
    from composed_total [OF this, of cv "now - t"]
    obtain comp where "composed cv settings_100x50 (now - t) = Inr comp"
      and "rows comp = 50" and "cols comp = 100"
      by (auto simp: settings_100x50_def panel_count_def)
    then show ?thesis
      by (simp add: get_frame_no_cap make_overlay_shape)
  qed
  then show "list_all (\<lambda>(read, now).
       \<exists>frame. get_frame cv (FrameProvider_init settings_100x50 False t) read now = Inr frame \<and>
               rows frame = 50 \<and> cols frame = 100) calls"
    by (simp add: list_all_iff case_prod_unfold)
qed

theorem get_frame_never_fails_witness:
  "0 < width (provider_s (FrameProvider_init UiSettings_default True 3)) \<and>
   0 < height (provider_s (FrameProvider_init UiSettings_default True 3)) \<and>
   (\<exists>frame. get_frame libs_test (FrameProvider_init UiSettings_default True 3) (False, None) 4 = Inr frame \<and>
            rows frame = 480 \<and> cols frame = 2544) \<and>
   (\<exists>frame. get_frame libs_test (FrameProvider_init settings_100x50 False 3) (False, None) 4 = Inr frame \<and>
            rows frame = 50 \<and> cols frame = 100) \<and>
   (\<exists>frame. get_frame libs_test (FrameProvider_init settings_100x50 False 3) (True, Some frame_empty) 5 = Inr frame \<and>
            rows frame = 50 \<and> cols frame = 100)"
proof -
  have lf: "live_frame (FrameProvider_init UiSettings_default True 3) (False, None) = None"
    by (simp add: live_frame_def FrameProvider_init_def)
  from get_frame_never_fails [of "FrameProvider_init UiSettings_default True 3" libs_test
      "(False, None)" 4 3 "[((False, None), 4), ((True, Some frame_empty), 5)]"]
  show ?thesis
    by (simp add: lf) (auto simp: FrameProvider_init_def UiSettings_default_def panel_count_def)
qed

text \<open>
  C8. Every frame \<open>get_frame\<close> returns is \<open>putText\<close> applied to the final image, which
  is the captured frame on the live path and the composed frame, after the panels were
  concatenated, on the synthetic path; the text is the decimal width of that final
  image, an \<open>x\<close>, and its decimal height, at 20 columns from the left and 20 rows above
  the bottom. On the synthetic path the width in the text is the number of panels times
  the configured width: with the default settings the text is \<open>2544x480\<close>, not the
  \<open>848x480\<close> of the base panel.
\<close>

theorem overlay_shows_final_size:
  assumes "get_frame cv self read now = Inr frame"
  shows "\<exists>final.
           (case live_frame self read of
              Some live \<Rightarrow> final = live
            | None \<Rightarrow>
                composed cv (provider_s self) (now - provider_t0 self) = Inr final \<and>
                rows final = nat (height (provider_s self)) \<and>
                cols final = panel_count (provider_s self) * nat (width (provider_s self))) \<and>
           frame = draw (putText cv (str_nat (cols final) @ ''x'' @ str_nat (rows final))
                           (20, int (rows final) - 20) (255, 255, 255) 2) final"
proof (cases "live_frame self read")
  case (Some live)
  with assms show ?thesis
    by (simp add: get_frame_live make_overlay_def)
next
  case None
  from assms obtain final where c: "composed cv (provider_s self) (now - provider_t0 self) = Inr final"
    and f: "frame = make_overlay cv final"
    by (auto simp: get_frame_synthetic [OF None] split: sum.splits)
  from c obtain base where b: "base_panel cv (provider_s self) (now - provider_t0 self) = Inr base"
    by (auto simp: composed_def split: sum.splits)
  from c base_panel_shape(1,2) [OF b]
  have "rows final = nat (height (provider_s self))"
    and "cols final = panel_count (provider_s self) * nat (width (provider_s self))"
    by (auto simp: composed_eq [OF b])
  with None c f show ?thesis
    by (simp add: make_overlay_def)
qed

theorem overlay_shows_final_size_witness:
  "\<exists>final. composed libs_test UiSettings_default 1 = Inr final \<and>
     get_frame libs_test (FrameProvider_init UiSettings_default False 3) (False, None) 4
       = Inr (draw (putText libs_test ''2544x480'' (20, 460) (255, 255, 255) 2) final)"
proof -
  have "0 < width UiSettings_default" and "0 < height UiSettings_default"
    by (simp_all add: UiSettings_default_def)
  from composed_total [OF this, of libs_test 1]
  obtain comp where c: "composed libs_test UiSettings_default 1 = Inr comp"
    and r: "rows comp = 480" and k: "cols comp = 2544"
    by (auto simp: UiSettings_default_def panel_count_def)
  have g: "get_frame libs_test (FrameProvider_init UiSettings_default False 3) (False, None) 4
             = Inr (make_overlay libs_test comp)"
    by (simp add: get_frame_no_cap c)
  have fields: "provider_s (FrameProvider_init UiSettings_default False 3) = UiSettings_default"
    "provider_t0 (FrameProvider_init UiSettings_default False 3) = 3"
    by (simp_all add: FrameProvider_init_def)
  from overlay_shows_final_size [OF g] obtain final where
    f1: "composed libs_test UiSettings_default (4 - 3) = Inr final" and
    f2: "make_overlay libs_test comp =
           draw (putText libs_test (str_nat (cols final) @ ''x'' @ str_nat (rows final))
                   (20, int (rows final) - 20) (255, 255, 255) 2) final"
    by (auto simp: live_frame_no_cap fields)
  from f1 c have "final = comp" by simp
  with f2 r k have "make_overlay libs_test comp =
      draw (putText libs_test ''2544x480'' (20, 460) (255, 255, 255) 2) comp"
    by (simp add: str_eval)
  with g c show ?thesis by simp
qed

end
